theory Spec2Isabelle
  imports Complex_Main
begin

section \<open>Python and NumPy primitives used by \<open>extract_deep_features\<close>\<close>

text \<open>
  The model covers lines 61 to 103 of \<open>examples/image_matching.py\<close>: the computation of
  \<open>loop_num\<close>, the worker thread, the enqueue loop, the poison pill, the join and the
  final concatenation. The patches (\<open>all_patches\<close>), the batch size
  (\<open>FLAGS.batch_size\<close>) and the inference call (\<open>sess.run\<close>) are parameters.

  Exceptions raised in the calling thread are values of type \<open>error\<close>.
\<close>

datatype error = ZeroDivisionError | ValueError

text \<open>
  Python's \<open>float\<close> is idealised as an exact rational: \<open>float(n) / float(b)\<close> and
  \<open>n / b\<close> are the exact quotients (they are exact in IEEE double arithmetic as long as
  the operands stay below \<open>2^53\<close>). \<open>int(x)\<close> truncates towards zero.
\<close>

definition py_int :: "rat \<Rightarrow> int" where
  "py_int x = (if 0 \<le> x then \<lfloor>x\<rfloor> else \<lceil>x\<rceil>)"

text \<open>
  Lines 63 to 66. \<open>%\<close> on Python integers takes the sign of the divisor, as \<open>mod\<close> on
  \<open>int\<close> does; with a zero divisor it raises, which \<open>mod\<close> does not.
\<close>

definition loop_num :: "int \<Rightarrow> int \<Rightarrow> error + int" where
  "loop_num num_patch batch_size =
     (if batch_size = 0 then Inl ZeroDivisionError
      else if num_patch mod batch_size > 0
        then Inr (py_int (of_int \<lfloor>(of_int num_patch :: rat) / of_int batch_size\<rfloor>))
        else Inr (py_int (of_int num_patch / of_int batch_size - 1)))"

text \<open>
  Slicing along the first axis, \<open>a[lo:hi]\<close> and \<open>a[lo:]\<close>: a negative bound counts from
  the end, and every bound is clipped to the array.
\<close>

definition clip_index :: "nat \<Rightarrow> int \<Rightarrow> nat" where
  "clip_index n k = (if k < 0 then nat (max 0 (k + int n)) else min (nat k) n)"

definition slice :: "'a list \<Rightarrow> int \<Rightarrow> int \<Rightarrow> 'a list" where
  "slice a lo hi =
     (let start = clip_index (length a) lo; stop = clip_index (length a) hi
      in take (stop - start) (drop start a))"

definition slice_from :: "'a list \<Rightarrow> int \<Rightarrow> 'a list" where
  "slice_from a lo = drop (clip_index (length a) lo) a"

text \<open>\<open>np.concatenate\<close> along axis 0 raises \<open>ValueError\<close> on an empty list of arrays.\<close>

definition np_concatenate :: "'f list list \<Rightarrow> error + 'f list" where
  "np_concatenate arrs = (if arrs = [] then Inl ValueError else Inr (concat arrs))"

text \<open>
  \<open>Queue(maxsize)\<close>: \<open>put\<close> blocks while \<open>maxsize > 0\<close> and the queue holds
  \<open>maxsize\<close> elements (\<open>None\<close> is the blocked caller); \<open>get\<close> blocks on an empty
  queue. Line 79 creates the queue with \<open>Queue()\<close>, that is \<open>maxsize = 0\<close>.
\<close>

definition queue_put :: "int \<Rightarrow> 'x list \<Rightarrow> 'x \<Rightarrow> 'x list option" where
  "queue_put maxsize q x =
     (if 0 < maxsize \<and> maxsize \<le> int (length q) then None else Some (q @ [x]))"

definition queue_get :: "'x list \<Rightarrow> ('x \<times> 'x list) option" where
  "queue_get q = (case q of [] \<Rightarrow> None | x # q' \<Rightarrow> Some (x, q'))"

definition default_maxsize :: int where
  "default_maxsize = 0"

section \<open>The producer and the worker thread\<close>

text \<open>
  The calling thread (lines 87 to 95) and the worker thread (lines 68 to 76) run
  concurrently and share \<open>patch_queue\<close> and \<open>all_feat\<close>. Each thread is a step function
  on the shared state that returns \<open>None\<close> when the thread is blocked or has finished; a
  step of the system is a step of either thread, so every interleaving is a run.

  \<open>puts\<close> and \<open>gets\<close> are history variables: every element ever put, with the source
  line that put it, and every element the worker has taken. The code does not read them.
\<close>

datatype thread_status = Running | Returned | Crashed

datatype main_pc = Enqueue int | Joining | Joined

datatype put_site = Line89 | Line91 | Line93

record ('a, 'f) state =
  patch_queue :: "'a list option list"
  all_feat :: "'f list list"
  worker_thread :: thread_status
  pc :: main_pc
  puts :: "(put_site \<times> 'a list option) list"
  gets :: "'a list option list"

text \<open>The state after line 82: empty queue and accumulator, the worker started.\<close>

definition init_state :: "('a, 'f) state" where
  "init_state =
     \<lparr>patch_queue = [], all_feat = [], worker_thread = Running, pc = Enqueue 0,
      puts = [], gets = []\<rparr>"

text \<open>
  One iteration of \<open>_worker\<close>: \<open>get\<close>, the \<open>is None\<close> test, \<open>sess.run\<close> and the
  append. \<open>sess_run\<close> returns \<open>None\<close> when the inference call raises; the exception then
  ends the worker thread. (\<open>task_done\<close> only counts, for \<open>Queue.join\<close>, which is never
  called.) The iteration is one step: between its \<open>get\<close> and its append the calling
  thread can only put at the tail of the queue, and it reads \<open>all_feat\<close> only after
  the join.
\<close>

definition worker_step ::
  "('a list \<Rightarrow> 'f list option) \<Rightarrow> ('a, 'f) state \<Rightarrow> ('a, 'f) state option" where
  "worker_step sess_run s =
     (if worker_thread s \<noteq> Running then None
      else case queue_get (patch_queue s) of
        None \<Rightarrow> None
      | Some (patch_data, q) \<Rightarrow>
          (case patch_data of
             None \<Rightarrow>
               Some (s\<lparr>patch_queue := q, gets := gets s @ [patch_data],
                        worker_thread := Returned\<rparr>)
           | Some batch \<Rightarrow>
               (case sess_run batch of
                  None \<Rightarrow>
                    Some (s\<lparr>patch_queue := q, gets := gets s @ [patch_data],
                             worker_thread := Crashed\<rparr>)
                | Some feat \<Rightarrow>
                    Some (s\<lparr>patch_queue := q, gets := gets s @ [patch_data],
                             all_feat := all_feat s @ [feat]\<rparr>))))"

text \<open>The array put by iteration \<open>i\<close> of the loop of line 87, and the line that puts it.\<close>

definition loop_batch :: "'a list \<Rightarrow> int \<Rightarrow> int \<Rightarrow> int \<Rightarrow> 'a list" where
  "loop_batch all_patches batch_size lnum i =
     (if i < lnum
      then slice all_patches (i * batch_size) ((i + 1) * batch_size)
      else slice_from all_patches (i * batch_size))"

definition loop_site :: "int \<Rightarrow> int \<Rightarrow> put_site" where
  "loop_site lnum i = (if i < lnum then Line89 else Line91)"

text \<open>
  One step of the calling thread: an iteration of the loop over \<open>range(loop_num + 1)\<close>,
  the poison pill of line 93 once the range is exhausted, or the join of line 95, which
  blocks while the worker thread is alive.
\<close>

definition main_step ::
  "'a list \<Rightarrow> int \<Rightarrow> int \<Rightarrow> ('a, 'f) state \<Rightarrow> ('a, 'f) state option" where
  "main_step all_patches batch_size lnum s =
     (case pc s of
        Enqueue i \<Rightarrow>
          (if i < lnum + 1 then
             (let x = Some (loop_batch all_patches batch_size lnum i)
              in case queue_put default_maxsize (patch_queue s) x of
                   None \<Rightarrow> None
                 | Some q \<Rightarrow>
                     Some (s\<lparr>patch_queue := q, puts := puts s @ [(loop_site lnum i, x)],
                              pc := Enqueue (i + 1)\<rparr>))
           else
             (case queue_put default_maxsize (patch_queue s) None of
                None \<Rightarrow> None
              | Some q \<Rightarrow>
                  Some (s\<lparr>patch_queue := q, puts := puts s @ [(Line93, None)],
                           pc := Joining\<rparr>)))
      | Joining \<Rightarrow> (if worker_thread s = Running then None else Some (s\<lparr>pc := Joined\<rparr>))
      | Joined \<Rightarrow> None)"

definition step ::
  "'a list \<Rightarrow> int \<Rightarrow> int \<Rightarrow> ('a list \<Rightarrow> 'f list option) \<Rightarrow>
   ('a, 'f) state \<Rightarrow> ('a, 'f) state \<Rightarrow> bool" where
  "step all_patches batch_size lnum sess_run s s' \<longleftrightarrow>
     main_step all_patches batch_size lnum s = Some s' \<or> worker_step sess_run s = Some s'"

inductive reachable ::
  "'a list \<Rightarrow> int \<Rightarrow> int \<Rightarrow> ('a list \<Rightarrow> 'f list option) \<Rightarrow> ('a, 'f) state \<Rightarrow> bool"
  for all_patches batch_size lnum sess_run where
  reachable_init: "reachable all_patches batch_size lnum sess_run init_state"
| reachable_step:
    "reachable all_patches batch_size lnum sess_run s \<Longrightarrow>
     step all_patches batch_size lnum sess_run s s' \<Longrightarrow>
     reachable all_patches batch_size lnum sess_run s'"

text \<open>Runs of exactly \<open>n\<close> steps.\<close>

inductive run_of ::
  "'a list \<Rightarrow> int \<Rightarrow> int \<Rightarrow> ('a list \<Rightarrow> 'f list option) \<Rightarrow>
   nat \<Rightarrow> ('a, 'f) state \<Rightarrow> ('a, 'f) state \<Rightarrow> bool"
  for all_patches batch_size lnum sess_run where
  run_of_0: "run_of all_patches batch_size lnum sess_run 0 s s"
| run_of_Suc:
    "run_of all_patches batch_size lnum sess_run n s s' \<Longrightarrow>
     step all_patches batch_size lnum sess_run s' s'' \<Longrightarrow>
     run_of all_patches batch_size lnum sess_run (Suc n) s s''"

text \<open>The bound on the number of steps left: it decreases with every step of either thread.\<close>

definition pc_rank :: "int \<Rightarrow> main_pc \<Rightarrow> nat" where
  "pc_rank lnum p = (case p of Enqueue i \<Rightarrow> 2 + nat (lnum + 1 - i) | Joining \<Rightarrow> 1 | Joined \<Rightarrow> 0)"

definition steps_left :: "int \<Rightarrow> ('a, 'f) state \<Rightarrow> nat" where
  "steps_left lnum s = 2 * pc_rank lnum (pc s) + length (patch_queue s)"

text \<open>
  One scheduler, for evaluation: the worker runs whenever it can, the calling thread
  otherwise. The run ends in the state where neither thread can move.
\<close>

function run_threads ::
  "'a list \<Rightarrow> int \<Rightarrow> int \<Rightarrow> ('a list \<Rightarrow> 'f list option) \<Rightarrow> ('a, 'f) state \<Rightarrow> ('a, 'f) state"
  where
  "run_threads all_patches batch_size lnum sess_run s =
     (case worker_step sess_run s of
        Some s' \<Rightarrow> run_threads all_patches batch_size lnum sess_run s'
      | None \<Rightarrow>
          (case main_step all_patches batch_size lnum s of
             Some s' \<Rightarrow> run_threads all_patches batch_size lnum sess_run s'
           | None \<Rightarrow> s))"
  by pat_completeness auto
termination
  by (relation "measure (\<lambda>(all_patches, batch_size, lnum, sess_run, s). steps_left lnum s)")
     (auto simp: worker_step_def main_step_def queue_get_def queue_put_def steps_left_def
        pc_rank_def Let_def split: if_splits list.splits option.splits main_pc.splits)

declare run_threads.simps [simp del]

text \<open>
  The whole of lines 61 to 103, on the features alone. The outer \<open>None\<close> is a call that
  never returns (the join never completes); \<open>Inl\<close> is an exception raised in the calling
  thread. \<open>quantize\<close> is the elementwise map of line 102. The threads are run by
  \<open>run_threads\<close>; that every other schedule ends in the same accumulator is
  \<open>reachable_joined\<close> below.
\<close>

definition extract_deep_features ::
  "'a list \<Rightarrow> int \<Rightarrow> ('a list \<Rightarrow> 'f list option) \<Rightarrow> bool \<Rightarrow> ('f \<Rightarrow> 'f) \<Rightarrow>
   (error + 'f list) option" where
  "extract_deep_features all_patches batch_size sess_run qtz quantize =
     (case loop_num (int (length all_patches)) batch_size of
        Inl e \<Rightarrow> Some (Inl e)
      | Inr lnum \<Rightarrow>
          (let s = run_threads all_patches batch_size lnum sess_run init_state
           in if pc s \<noteq> Joined then None
              else case np_concatenate (all_feat s) of
                     Inl e \<Rightarrow> Some (Inl e)
                   | Inr feat \<Rightarrow> Some (Inr (if qtz then map quantize feat else feat))))"

section \<open>Derived descriptions of a run\<close>

text \<open>The batches the loop of lines 87 to 91 puts, in order: one per \<open>i\<close> in \<open>range(loop_num + 1)\<close>.\<close>

definition enqueued_batches :: "'a list \<Rightarrow> int \<Rightarrow> int \<Rightarrow> 'a list list" where
  "enqueued_batches all_patches batch_size lnum =
     map (loop_batch all_patches batch_size lnum) [0..lnum]"

text \<open>Everything lines 87 to 93 put, in order, with the putting line.\<close>

definition put_sequence :: "'a list \<Rightarrow> int \<Rightarrow> int \<Rightarrow> (put_site \<times> 'a list option) list" where
  "put_sequence all_patches batch_size lnum =
     map (\<lambda>i. (loop_site lnum i, Some (loop_batch all_patches batch_size lnum i))) [0..lnum]
     @ [(Line93, None)]"

text \<open>
  The effect on accumulator and thread status of the worker taking one element; a worker
  that has returned or crashed takes nothing.
\<close>

fun worker_take ::
  "('a list \<Rightarrow> 'f list option) \<Rightarrow> 'f list list \<times> thread_status \<Rightarrow> 'a list option \<Rightarrow>
   'f list list \<times> thread_status" where
  "worker_take sess_run (acc, st) x =
     (if st \<noteq> Running then (acc, st)
      else case x of
        None \<Rightarrow> (acc, Returned)
      | Some batch \<Rightarrow>
          (case sess_run batch of
             None \<Rightarrow> (acc, Crashed)
           | Some feat \<Rightarrow> (acc @ [feat], Running)))"

text \<open>
  What is known of every reachable state: how far the producer is, that the queue holds
  what was put and not yet taken, in order, and that accumulator and worker status are
  the result of the worker's takes so far.
\<close>

definition state_inv ::
  "'a list \<Rightarrow> int \<Rightarrow> int \<Rightarrow> ('a list \<Rightarrow> 'f list option) \<Rightarrow> ('a, 'f) state \<Rightarrow> bool" where
  "state_inv all_patches batch_size lnum sess_run s \<longleftrightarrow>
     (case pc s of
        Enqueue i \<Rightarrow>
          0 \<le> i \<and> i \<le> max 0 (lnum + 1) \<and>
          puts s = map (\<lambda>i. (loop_site lnum i, Some (loop_batch all_patches batch_size lnum i)))
                     [0..i - 1]
      | Joining \<Rightarrow> puts s = put_sequence all_patches batch_size lnum
      | Joined \<Rightarrow>
          puts s = put_sequence all_patches batch_size lnum \<and> worker_thread s \<noteq> Running)
     \<and> gets s @ patch_queue s = map snd (puts s)
     \<and> (all_feat s, worker_thread s) = foldl (worker_take sess_run) ([], Running) (gets s)"

section \<open>The batch splitter as the specification words it\<close>

text \<open>
  The specification's BatchSplitter: \<open>ceil(N / batch_size)\<close> batches, batch \<open>k\<close> being
  the items from \<open>k * batch_size\<close> on, at most \<open>batch_size\<close> of them.
\<close>

definition batch_splitter :: "'a list \<Rightarrow> nat \<Rightarrow> 'a list list" where
  "batch_splitter items batch_size =
     map (\<lambda>k. take batch_size (drop (k * batch_size) items))
       [0..<nat \<lceil>(of_nat (length items) :: rat) / of_nat batch_size\<rceil>]"

text \<open>
  A worker that has stopped was running until its last take: it takes nothing after the
  element that stopped it.
\<close>

definition gets_inv :: "('a list \<Rightarrow> 'f list option) \<Rightarrow> ('a, 'f) state \<Rightarrow> bool" where
  "gets_inv sess_run s \<longleftrightarrow>
     (worker_thread s \<noteq> Running \<longrightarrow>
        gets s \<noteq> [] \<and>
        snd (foldl (worker_take sess_run) ([], Running) (butlast (gets s))) = Running)"

text \<open>The elements a worker takes from a queue holding \<open>xs\<close>, up to the one that stops it.\<close>

fun worker_prefix :: "('a list \<Rightarrow> 'f list option) \<Rightarrow> 'a list option list \<Rightarrow> 'a list option list" where
  "worker_prefix sess_run [] = []"
| "worker_prefix sess_run (None # xs) = [None]"
| "worker_prefix sess_run (Some batch # xs) =
     (case sess_run batch of
        None \<Rightarrow> [Some batch]
      | Some feat \<Rightarrow> Some batch # worker_prefix sess_run xs)"

text \<open>The number of batches for \<open>n\<close> items, as a natural number: \<open>n / b\<close> rounded up.\<close>

definition num_batches :: "nat \<Rightarrow> nat \<Rightarrow> nat" where
  "num_batches n b = (if n mod b = 0 then n div b else Suc (n div b))"

section \<open>Inference functions for concrete runs\<close>

text \<open>
  Two stand-ins for \<open>sess.run\<close>, used where a run is evaluated: one returns its batch as
  the features, the other raises on one given batch.
\<close>

definition identity_model :: "'a list \<Rightarrow> 'a list option" where
  "identity_model batch = Some batch"

definition model_failing_on :: "'a list \<Rightarrow> 'a list \<Rightarrow> 'a list option" where
  "model_failing_on bad batch = (if batch = bad then None else Some batch)"

section \<open>The arithmetic of \<open>loop_num\<close>\<close>

lemma py_int_of_int: "py_int (of_int k) = k"
  by (simp add: py_int_def)

lemma loop_num_pos:
  assumes "0 < B"
  shows "loop_num N B = Inr (if N mod B > 0 then N div B else N div B - 1)"
proof (cases "N mod B > 0")
  case True
  then show ?thesis using assms
    by (simp add: loop_num_def py_int_of_int floor_divide_of_int_eq)
next
  case False
  with assms have "N mod B = 0"
    by (smt (verit) pos_mod_sign)
  then have "B dvd N" by auto
  then have "(of_int N :: rat) / of_int B - 1 = of_int (N div B - 1)"
    by (simp add: of_int_div)
  then show ?thesis using assms False
    by (simp add: loop_num_def py_int_of_int del: of_int_diff)
qed

lemma loop_num_ceiling:
  assumes "0 < B"
  shows "loop_num N B = Inr (\<lceil>(of_int N :: rat) / of_int B\<rceil> - 1)"
proof -
  have nn: "N mod B > 0 \<or> N mod B = 0"
    using pos_mod_sign [OF assms, of N] by linarith
  have "\<lceil>(of_int N :: rat) / of_int B\<rceil> = - (- N div B)"
    by (rule ceiling_divide_eq_div)
  also have "\<dots> = (if N mod B > 0 then N div B + 1 else N div B)"
    using nn assms by (elim disjE) (simp_all add: zdiv_zminus1_eq_if)
  finally show ?thesis using assms by (simp add: loop_num_pos)
qed

lemma loop_num_neg:
  assumes "B < 0" "0 \<le> N"
  shows "\<exists>L. loop_num N B = Inr L \<and> L < 0"
proof -
  have m: "\<not> N mod B > 0" using neg_mod_sign [OF assms(1), of N] by linarith
  have q: "(of_int N :: rat) / of_int B \<le> 0"
    using assms by (simp add: divide_nonneg_neg)
  then have c: "\<lceil>(of_int N :: rat) / of_int B\<rceil> \<le> 0"
    by (simp add: ceiling_le_iff)
  have "py_int ((of_int N :: rat) / of_int B - 1) = \<lceil>(of_int N :: rat) / of_int B\<rceil> - 1"
    using q by (simp add: py_int_def)
  then show ?thesis using assms m c by (simp add: loop_num_def)
qed

lemma loop_num_zero: "loop_num N 0 = Inl ZeroDivisionError"
  by (simp add: loop_num_def)

section \<open>Slices and the batches of the enqueue loop\<close>

lemma slice_nonneg:
  assumes "0 \<le> lo" "lo \<le> hi"
  shows "slice a lo hi = take (nat hi - nat lo) (drop (nat lo) a)"
proof (cases "nat lo \<le> length a")
  case True
  then show ?thesis using assms
    by (auto simp: slice_def clip_index_def Let_def min_def)
next
  case False
  then show ?thesis using assms
    by (simp add: slice_def clip_index_def Let_def min_def)
qed

lemma slice_from_nonneg: "0 \<le> lo \<Longrightarrow> slice_from a lo = drop (nat lo) a"
  by (cases "nat lo \<le> length a") (simp_all add: slice_from_def clip_index_def min_def)

lemma ceiling_nat_div:
  assumes "0 < b"
  shows "\<lceil>(of_nat n :: rat) / of_nat b\<rceil> = int (if n mod b = 0 then n div b else Suc (n div b))"
proof -
  have "\<lceil>(of_nat n :: rat) / of_nat b\<rceil> = \<lceil>(of_int (int n) :: rat) / of_int (int b)\<rceil>"
    by simp
  also have "\<dots> = - (- int n div int b)"
    by (rule ceiling_divide_eq_div)
  also have "\<dots> = (if int n mod int b = 0 then int n div int b else int n div int b + 1)"
    using assms by (simp add: zdiv_zminus1_eq_if)
  also have "\<dots> = int (if n mod b = 0 then n div b else Suc (n div b))"
    by (simp only: zdiv_int [symmetric] zmod_int [symmetric] of_nat_eq_0_iff of_nat_Suc if_distrib [of int]) simp
  finally show ?thesis .
qed


lemma loop_num_nat:
  assumes "0 < b"
  shows "loop_num (int n) (int b) = Inr (int (if n mod b = 0 then n div b else Suc (n div b)) - 1)"
proof -
  have "0 < int b" using assms by simp
  from loop_num_ceiling [OF this, of "int n"] show ?thesis
    using ceiling_nat_div [OF assms, of n] by simp
qed

lemma concat_chunks:
  "concat (map (\<lambda>k. take b (drop (k * b) xs)) [0..<m]) = take (m * b) xs"
proof (induction m)
  case 0
  show ?case by simp
next
  case (Suc m)
  have "take (m * b + b) xs = take (m * b) xs @ take b (drop (m * b) xs)"
    by (rule take_add)
  with Suc show ?case by (simp add: add.commute)
qed

lemma map_upto_nat: "map f [0..L] = map (\<lambda>k. f (int k)) [0..<nat (L + 1)]"
proof (rule nth_equalityI)
  show "length (map f [0..L]) = length (map (\<lambda>k. f (int k)) [0..<nat (L + 1)])"
    by simp
next
  fix k assume "k < length (map f [0..L])"
  then have k: "k < nat (L + 1)" by simp
  then have "[0..L] ! k = int k"
    using nth_upto [of 0 k L] by simp
  with k show "map f [0..L] ! k = map (\<lambda>k. f (int k)) [0..<nat (L + 1)] ! k"
    by simp
qed


lemma num_batches_covers:
  assumes "0 < b"
  shows "n \<le> num_batches n b * b"
proof -
  have d: "n div b * b + n mod b = n" by simp
  have m: "n mod b < b" using assms by simp
  show ?thesis
  proof (cases "n mod b = 0")
    case True
    with d show ?thesis by (simp add: num_batches_def)
  next
    case False
    have "n \<le> n div b * b + b" using d m by linarith
    with False show ?thesis by (simp add: num_batches_def add.commute)
  qed
qed

lemma loop_batch_chunk:
  assumes b: "0 < b" and k: "k < num_batches (length P) b"
  shows "loop_batch P (int b) (int (num_batches (length P) b) - 1) (int k) =
         take b (drop (k * b) P)"
proof (cases "Suc k < num_batches (length P) b")
  case True
  have "slice P (int k * int b) ((int k + 1) * int b) =
        take (nat ((int k + 1) * int b) - nat (int k * int b)) (drop (nat (int k * int b)) P)"
    by (rule slice_nonneg) (simp_all add: distrib_right)
  moreover have "nat (int k * int b) = k * b"
    by (simp add: nat_mult_distrib)
  moreover have "nat ((int k + 1) * int b) = k * b + b"
    by (simp add: nat_mult_distrib nat_add_distrib distrib_right)
  ultimately show ?thesis using True
    by (simp add: loop_batch_def)
next
  case False
  with k have e: "num_batches (length P) b = Suc k" by simp
  have "length P \<le> Suc k * b"
    using num_batches_covers [OF b, of "length P"] e by simp
  then have "length (drop (k * b) P) \<le> b" by simp
  then have "take b (drop (k * b) P) = drop (k * b) P" by simp
  moreover have "slice_from P (int k * int b) = drop (nat (int k * int b)) P"
    by (rule slice_from_nonneg) simp
  moreover have "nat (int k * int b) = k * b"
    by (simp add: nat_mult_distrib)
  ultimately show ?thesis using e
    by (simp add: loop_batch_def)
qed


lemma batch_splitter_chunks:
  assumes "0 < b"
  shows "batch_splitter xs b =
         map (\<lambda>k. take b (drop (k * b) xs)) [0..<num_batches (length xs) b]"
  using ceiling_nat_div [OF assms, of "length xs"]
  by (simp add: batch_splitter_def num_batches_def)

lemma enqueued_batches_chunks:
  assumes b: "0 < b"
  shows "enqueued_batches P (int b) (int (num_batches (length P) b) - 1) =
         map (\<lambda>k. take b (drop (k * b) P)) [0..<num_batches (length P) b]"
proof -
  let ?m = "num_batches (length P) b"
  have "enqueued_batches P (int b) (int ?m - 1) =
        map (\<lambda>k. loop_batch P (int b) (int ?m - 1) (int k)) [0..<nat (int ?m - 1 + 1)]"
    unfolding enqueued_batches_def by (rule map_upto_nat)
  also have "\<dots> = map (\<lambda>k. loop_batch P (int b) (int ?m - 1) (int k)) [0..<?m]"
    by simp
  also have "\<dots> = map (\<lambda>k. take b (drop (k * b) P)) [0..<?m]"
    by (rule map_cong) (simp_all add: loop_batch_chunk [OF b])
  finally show ?thesis .
qed

lemma loop_num_num_batches:
  assumes "0 < B" "loop_num (int n) B = Inr L"
  shows "L = int (num_batches n (nat B)) - 1"
proof -
  have "0 < nat B" using assms(1) by simp
  from loop_num_nat [OF this, of n] assms show ?thesis
    by (simp add: num_batches_def)
qed

lemma enqueued_batches_spec:
  assumes "0 < B" "loop_num (int (length P)) B = Inr L"
  shows "enqueued_batches P B L = batch_splitter P (nat B)"
proof -
  have b: "0 < nat B" using assms(1) by simp
  have L: "L = int (num_batches (length P) (nat B)) - 1"
    using assms by (rule loop_num_num_batches)
  have "enqueued_batches P (int (nat B)) L = batch_splitter P (nat B)"
    unfolding L using enqueued_batches_chunks [OF b, of P] batch_splitter_chunks [OF b, of P]
    by simp
  then show ?thesis using assms(1) by simp
qed






lemma batch_splitter_concat:
  assumes "0 < b"
  shows "concat (batch_splitter xs b) = xs"
  using num_batches_covers [OF assms, of "length xs"]
  by (simp add: batch_splitter_chunks [OF assms] concat_chunks)

section \<open>The batch splitting of lines 63 to 66 and 87 to 91\<close>





section \<open>What holds in every reachable state\<close>

lemma queue_put_default: "queue_put default_maxsize q x = Some (q @ [x])"
  by (simp add: queue_put_def default_maxsize_def)

lemma main_step_enqueue:
  assumes "pc s = Enqueue i" "i < lnum + 1"
  shows "main_step all_patches batch_size lnum s =
         Some (s\<lparr>patch_queue := patch_queue s @ [Some (loop_batch all_patches batch_size lnum i)],
                 puts := puts s @ [(loop_site lnum i, Some (loop_batch all_patches batch_size lnum i))],
                 pc := Enqueue (i + 1)\<rparr>)"
  using assms by (simp add: main_step_def queue_put_default Let_def)

lemma main_step_poison:
  assumes "pc s = Enqueue i" "\<not> i < lnum + 1"
  shows "main_step all_patches batch_size lnum s =
         Some (s\<lparr>patch_queue := patch_queue s @ [None],
                 puts := puts s @ [(Line93, None)], pc := Joining\<rparr>)"
  using assms by (simp add: main_step_def queue_put_default)

lemma main_step_join:
  assumes "pc s = Joining"
  shows "main_step all_patches batch_size lnum s =
         (if worker_thread s = Running then None else Some (s\<lparr>pc := Joined\<rparr>))"
  using assms by (simp add: main_step_def)

lemma main_step_joined: "pc s = Joined \<Longrightarrow> main_step all_patches batch_size lnum s = None"
  by (simp add: main_step_def)

lemma worker_step_take:
  assumes "worker_thread s = Running" "patch_queue s = x # q"
  shows "\<exists>s'. worker_step sess_run s = Some s' \<and> patch_queue s' = q \<and>
              gets s' = gets s @ [x] \<and> pc s' = pc s \<and> puts s' = puts s \<and>
              (all_feat s', worker_thread s') =
                worker_take sess_run (all_feat s, worker_thread s) x"
  using assms
  by (auto simp: worker_step_def queue_get_def split: option.splits)

lemma worker_step_SomeD:
  assumes "worker_step sess_run s = Some s'"
  shows "worker_thread s = Running \<and> (\<exists>x. patch_queue s = x # patch_queue s' \<and>
              gets s' = gets s @ [x] \<and> pc s' = pc s \<and> puts s' = puts s \<and>
              (all_feat s', worker_thread s') =
                worker_take sess_run (all_feat s, worker_thread s) x)"
proof -
  from assms have r: "worker_thread s = Running"
    by (simp add: worker_step_def split: if_splits)
  from assms r obtain x q where q: "patch_queue s = x # q"
    by (cases "patch_queue s") (simp_all add: worker_step_def queue_get_def)
  from worker_step_take [OF r q, of sess_run] assms q r show ?thesis by auto
qed

lemma state_inv_init: "state_inv all_patches batch_size lnum sess_run init_state"
  by (simp add: state_inv_def init_state_def)

lemma state_inv_worker_step:
  assumes inv: "state_inv all_patches batch_size lnum sess_run s"
    and st: "worker_step sess_run s = Some s'"
  shows "state_inv all_patches batch_size lnum sess_run s'"
proof -
  from worker_step_SomeD [OF st] obtain x where
    r: "worker_thread s = Running" and q: "patch_queue s = x # patch_queue s'" and
    g: "gets s' = gets s @ [x]" and p: "pc s' = pc s" "puts s' = puts s" and
    w: "(all_feat s', worker_thread s') = worker_take sess_run (all_feat s, worker_thread s) x"
    by blast
  from inv have f: "(all_feat s, worker_thread s) = foldl (worker_take sess_run) ([], Running) (gets s)"
    and a: "gets s @ patch_queue s = map snd (puts s)"
    by (simp_all add: state_inv_def)
  have f': "(all_feat s', worker_thread s') = foldl (worker_take sess_run) ([], Running) (gets s')"
    unfolding g w using f by simp
  have a': "gets s' @ patch_queue s' = map snd (puts s')"
    using a q g p by simp
  have nj: "pc s \<noteq> Joined" using inv r by (auto simp: state_inv_def)
  show ?thesis
    using inv nj f' a' p unfolding state_inv_def
    by (cases "pc s") simp_all
qed

lemma upto_extend: "0 \<le> i \<Longrightarrow> map f [0..i - 1] @ [f i] = map f [0..i + 1 - 1]"
  using upto_rec2 [of 0 i] by simp

lemma upto_complete:
  assumes "0 \<le> i" "i \<le> max 0 (lnum + 1)" "\<not> i < lnum + 1"
  shows "[0..i - 1] = [0..lnum]"
proof (cases "0 \<le> lnum + 1")
  case True
  with assms have "i = lnum + 1" by simp
  then show ?thesis by simp
next
  case False
  with assms have "i = 0" by simp
  with False show ?thesis by simp
qed

lemma state_inv_main_step:
  assumes inv: "state_inv all_patches batch_size lnum sess_run s"
    and st: "main_step all_patches batch_size lnum s = Some s'"
  shows "state_inv all_patches batch_size lnum sess_run s'"
proof (cases "pc s")
  case (Enqueue i)
  from inv Enqueue have i: "0 \<le> i" "i \<le> max 0 (lnum + 1)"
    and p: "puts s = map (\<lambda>i. (loop_site lnum i, Some (loop_batch all_patches batch_size lnum i))) [0..i - 1]"
    and a: "gets s @ patch_queue s = map snd (puts s)"
    and f: "(all_feat s, worker_thread s) = foldl (worker_take sess_run) ([], Running) (gets s)"
    by (simp_all add: state_inv_def)
  show ?thesis
  proof (cases "i < lnum + 1")
    case True
    from main_step_enqueue [OF Enqueue True, of all_patches batch_size] st
    have s': "s' = s\<lparr>patch_queue := patch_queue s @ [Some (loop_batch all_patches batch_size lnum i)],
                 puts := puts s @ [(loop_site lnum i, Some (loop_batch all_patches batch_size lnum i))],
                 pc := Enqueue (i + 1)\<rparr>" by simp
    have "puts s' = map (\<lambda>i. (loop_site lnum i, Some (loop_batch all_patches batch_size lnum i))) [0..i + 1 - 1]"
      unfolding s' using p upto_extend [OF i(1)] by simp
    moreover have "gets s' @ patch_queue s' = map snd (puts s')"
      unfolding s' using a by (simp flip: append_assoc)
    moreover have "i + 1 \<le> max 0 (lnum + 1)" using True by simp
    ultimately show ?thesis using f i(1) unfolding state_inv_def
      by (simp add: s')
  next
    case False
    from main_step_poison [OF Enqueue False, of all_patches batch_size] st
    have s': "s' = s\<lparr>patch_queue := patch_queue s @ [None],
                 puts := puts s @ [(Line93, None)], pc := Joining\<rparr>" by simp
    have "puts s' = put_sequence all_patches batch_size lnum"
      unfolding s' put_sequence_def using p upto_complete [OF i False] by simp
    moreover have "gets s' @ patch_queue s' = map snd (puts s')"
      unfolding s' using a by (simp flip: append_assoc)
    ultimately show ?thesis using f unfolding state_inv_def
      by (simp add: s')
  qed
next
  case Joining
  from main_step_join [OF Joining, of all_patches batch_size lnum] st
  have w: "worker_thread s \<noteq> Running" and s': "s' = s\<lparr>pc := Joined\<rparr>"
    by (simp_all split: if_splits)
  show ?thesis using inv Joining w unfolding state_inv_def by (simp add: s')
next
  case Joined
  with st show ?thesis by (simp add: main_step_joined)
qed

lemma reachable_inv:
  "reachable all_patches batch_size lnum sess_run s \<Longrightarrow>
   state_inv all_patches batch_size lnum sess_run s"
proof (induction rule: reachable.induct)
  case reachable_init
  show ?case by (rule state_inv_init)
next
  case (reachable_step s s')
  then show ?case
    unfolding step_def
    by (auto intro: state_inv_main_step state_inv_worker_step)
qed

section \<open>Progress, termination and the state after the join\<close>

lemma worker_take_stopped:
  "st \<noteq> Running \<Longrightarrow> foldl (worker_take sess_run) (acc, st) xs = (acc, st)"
  by (induction xs) simp_all

lemma worker_take_pill:
  "None \<in> set xs \<Longrightarrow> snd (foldl (worker_take sess_run) (acc, st) xs) \<noteq> Running"
proof (induction xs arbitrary: acc st)
  case Nil
  then show ?case by simp
next
  case (Cons x xs)
  show ?case
  proof (cases "st = Running")
    case False
    then show ?thesis by (simp add: worker_take_stopped)
  next
    case True
    show ?thesis
    proof (cases x)
      case None
      with True show ?thesis by (simp add: worker_take_stopped)
    next
      case (Some b)
      with Cons.prems have "None \<in> set xs" by simp
      from Cons.IH [OF this] True Some show ?thesis
        by (cases "sess_run b") (simp_all add: worker_take_stopped)
    qed
  qed
qed

lemma put_sequence_values:
  "map snd (put_sequence all_patches batch_size lnum) =
   map Some (enqueued_batches all_patches batch_size lnum) @ [None]"
  by (simp add: put_sequence_def enqueued_batches_def comp_def)



lemma run_of_reachable:
  "run_of all_patches batch_size lnum sess_run n s s' \<Longrightarrow>
   reachable all_patches batch_size lnum sess_run s \<Longrightarrow>
   reachable all_patches batch_size lnum sess_run s'"
  by (induction rule: run_of.induct) (auto intro: reachable_step)

lemma reachable_progress:
  assumes r: "reachable all_patches batch_size lnum sess_run s" and nj: "pc s \<noteq> Joined"
  shows "\<exists>s'. step all_patches batch_size lnum sess_run s s'"
proof (cases "pc s")
  case (Enqueue i)
  then show ?thesis
    unfolding step_def
    using main_step_enqueue [OF Enqueue, of lnum all_patches batch_size]
      main_step_poison [OF Enqueue, of lnum all_patches batch_size]
    by (cases "i < lnum + 1") auto
next
  case Joining
  show ?thesis
  proof (cases "worker_thread s = Running")
    case False
    with main_step_join [OF Joining, of all_patches batch_size lnum] show ?thesis
      unfolding step_def by auto
  next
    case True
    from reachable_inv [OF r] Joining
    have p: "gets s @ patch_queue s = map snd (put_sequence all_patches batch_size lnum)"
      and f: "(all_feat s, worker_thread s) = foldl (worker_take sess_run) ([], Running) (gets s)"
      by (simp_all add: state_inv_def)
    have "patch_queue s \<noteq> []"
    proof
      assume "patch_queue s = []"
      with p have "None \<in> set (gets s)" by (simp add: put_sequence_values)
      from worker_take_pill [OF this, of sess_run "[]" Running] f True
      show False by (metis snd_conv)
    qed
    then obtain x q where "patch_queue s = x # q" by (cases "patch_queue s") auto
    from worker_step_take [OF True this, of sess_run] show ?thesis
      unfolding step_def by auto
  qed
next
  case Joined
  with nj show ?thesis by simp
qed

lemma reachable_joined:
  assumes r: "reachable all_patches batch_size lnum sess_run s" and j: "pc s = Joined"
  shows "(all_feat s, worker_thread s) =
         foldl (worker_take sess_run) ([], Running)
           (map Some (enqueued_batches all_patches batch_size lnum) @ [None])"
proof -
  from reachable_inv [OF r] j
  have p: "gets s @ patch_queue s = map snd (put_sequence all_patches batch_size lnum)"
    and f: "(all_feat s, worker_thread s) = foldl (worker_take sess_run) ([], Running) (gets s)"
    and w: "worker_thread s \<noteq> Running"
    by (simp_all add: state_inv_def)
  have "foldl (worker_take sess_run) ([], Running) (gets s @ patch_queue s) =
        foldl (worker_take sess_run) (all_feat s, worker_thread s) (patch_queue s)"
    using f by simp
  also have "\<dots> = (all_feat s, worker_thread s)"
    using w by (rule worker_take_stopped)
  finally show ?thesis unfolding p put_sequence_values by simp
qed

lemma run_threads_reachable:
  "reachable all_patches batch_size lnum sess_run s \<Longrightarrow>
   reachable all_patches batch_size lnum sess_run (run_threads all_patches batch_size lnum sess_run s)"
proof (induction all_patches batch_size lnum sess_run s rule: run_threads.induct)
  case (1 all_patches batch_size lnum sess_run s)
  show ?case
  proof (cases "worker_step sess_run s")
    case (Some s')
    then have "step all_patches batch_size lnum sess_run s s'" by (simp add: step_def)
    with "1.prems" have "reachable all_patches batch_size lnum sess_run s'"
      by (rule reachable_step)
    from "1.IH"(2) [OF Some this] Some show ?thesis
      by (simp add: run_threads.simps [of _ _ _ _ s])
  next
    case None
    show ?thesis
    proof (cases "main_step all_patches batch_size lnum s")
      case (Some s')
      then have "step all_patches batch_size lnum sess_run s s'" by (simp add: step_def)
      with "1.prems" have "reachable all_patches batch_size lnum sess_run s'"
        by (rule reachable_step)
      from "1.IH"(1) [OF None Some this] None Some show ?thesis
        by (simp add: run_threads.simps [of _ _ _ _ s])
    next
      case n: None
      with None "1.prems" show ?thesis
        by (simp add: run_threads.simps [of _ _ _ _ s])
    qed
  qed
qed

lemma run_threads_stuck:
  "\<not> step all_patches batch_size lnum sess_run
       (run_threads all_patches batch_size lnum sess_run s) s''"
proof (induction all_patches batch_size lnum sess_run s rule: run_threads.induct)
  case (1 all_patches batch_size lnum sess_run s)
  show ?case
  proof (cases "worker_step sess_run s")
    case (Some s')
    from "1.IH"(2) [OF Some] Some show ?thesis
      by (simp add: run_threads.simps [of _ _ _ _ s])
  next
    case None
    show ?thesis
    proof (cases "main_step all_patches batch_size lnum s")
      case (Some s')
      from "1.IH"(1) [OF None Some] None Some show ?thesis
        by (simp add: run_threads.simps [of _ _ _ _ s])
    next
      case n: None
      with None show ?thesis
        by (simp add: step_def run_threads.simps [of _ _ _ _ s])
    qed
  qed
qed

lemma run_threads_joined:
  "pc (run_threads all_patches batch_size lnum sess_run init_state) = Joined"
proof (rule ccontr)
  let ?s = "run_threads all_patches batch_size lnum sess_run init_state"
  assume "pc ?s \<noteq> Joined"
  moreover have "reachable all_patches batch_size lnum sess_run ?s"
    by (rule run_threads_reachable) (rule reachable_init)
  ultimately obtain s' where "step all_patches batch_size lnum sess_run ?s s'"
    using reachable_progress by blast
  then show False using run_threads_stuck by blast
qed

lemma run_threads_result:
  "(all_feat (run_threads all_patches batch_size lnum sess_run init_state),
    worker_thread (run_threads all_patches batch_size lnum sess_run init_state)) =
   foldl (worker_take sess_run) ([], Running)
     (map Some (enqueued_batches all_patches batch_size lnum) @ [None])"
  by (rule reachable_joined)
     (rule run_threads_reachable, rule reachable_init, rule run_threads_joined)

section \<open>What the worker takes and accumulates\<close>

lemma worker_take_all_ok:
  "\<forall>b \<in> set bs. sess_run b \<noteq> None \<Longrightarrow>
   foldl (worker_take sess_run) (acc, Running) (map Some bs) =
     (acc @ map (the \<circ> sess_run) bs, Running)"
proof (induction bs arbitrary: acc)
  case Nil
  show ?case by simp
next
  case (Cons b bs)
  from Cons.prems obtain f where f: "sess_run b = Some f" by auto
  from Cons.prems have "\<forall>b \<in> set bs. sess_run b \<noteq> None" by simp
  from Cons.IH [OF this, of "acc @ [f]"] f show ?case by simp
qed

lemma worker_take_success:
  assumes "\<forall>b \<in> set bs. sess_run b \<noteq> None"
  shows "foldl (worker_take sess_run) ([], Running) (map Some bs @ [None]) =
         (map (the \<circ> sess_run) bs, Returned)"
  using worker_take_all_ok [OF assms, of "[]"] by simp

lemma worker_take_failure:
  assumes k: "k < length bs" and bad: "sess_run (bs ! k) = None"
    and ok: "\<forall>j < k. sess_run (bs ! j) \<noteq> None"
  shows "foldl (worker_take sess_run) ([], Running) (map Some bs @ [None]) =
         (map (the \<circ> sess_run) (take k bs), Crashed)"
proof -
  have split: "bs = take k bs @ bs ! k # drop (Suc k) bs"
    using k by (rule id_take_nth_drop)
  have "\<forall>b \<in> set (take k bs). sess_run b \<noteq> None"
  proof
    fix b assume "b \<in> set (take k bs)"
    then obtain j where "j < length (take k bs)" "take k bs ! j = b"
      by (auto simp: in_set_conv_nth)
    with ok k show "sess_run b \<noteq> None" by auto
  qed
  from worker_take_all_ok [OF this, of "[]"]
  have pre: "foldl (worker_take sess_run) ([], Running) (map Some (take k bs)) =
             (map (the \<circ> sess_run) (take k bs), Running)" by simp
  have "map Some bs @ [None] =
        map Some (take k bs) @ Some (bs ! k) # (map Some (drop (Suc k) bs) @ [None])"
    by (subst split) simp
  then show ?thesis
    using pre bad by (simp add: worker_take_stopped)
qed

lemma gets_inv_init: "gets_inv sess_run init_state"
  by (simp add: gets_inv_def init_state_def)

lemma gets_inv_worker_step:
  assumes inv: "state_inv all_patches batch_size lnum sess_run s"
    and st: "worker_step sess_run s = Some s'"
  shows "gets_inv sess_run s'"
proof -
  from worker_step_SomeD [OF st] obtain x where
    r: "worker_thread s = Running" and g: "gets s' = gets s @ [x]"
    by blast
  from inv have "(all_feat s, worker_thread s) = foldl (worker_take sess_run) ([], Running) (gets s)"
    by (simp add: state_inv_def)
  with r have "snd (foldl (worker_take sess_run) ([], Running) (gets s)) = Running"
    by (metis snd_conv)
  then show ?thesis unfolding gets_inv_def g by simp
qed

lemma gets_inv_main_step:
  assumes "gets_inv sess_run s" "main_step all_patches batch_size lnum s = Some s'"
  shows "gets_inv sess_run s'"
proof -
  from assms(2) have "gets s' = gets s \<and> worker_thread s' = worker_thread s"
    by (auto simp: main_step_def queue_put_default Let_def split: main_pc.splits if_splits)
  with assms(1) show ?thesis by (simp add: gets_inv_def)
qed

lemma reachable_gets_inv:
  "reachable all_patches batch_size lnum sess_run s \<Longrightarrow> gets_inv sess_run s"
proof (induction rule: reachable.induct)
  case reachable_init
  show ?case by (rule gets_inv_init)
next
  case (reachable_step s s')
  from reachable_step.hyps(2) show ?case
    unfolding step_def
  proof
    assume "main_step all_patches batch_size lnum s = Some s'"
    with reachable_step.IH show ?thesis by (rule gets_inv_main_step)
  next
    assume "worker_step sess_run s = Some s'"
    with reachable_inv [OF reachable_step.hyps(1)] show ?thesis
      by (rule gets_inv_worker_step)
  qed
qed

lemma worker_prefix_unique:
  assumes "g \<noteq> []"
    and "snd (foldl (worker_take sess_run) (acc, Running) (butlast g)) = Running"
    and "snd (foldl (worker_take sess_run) (acc, Running) g) \<noteq> Running"
  shows "worker_prefix sess_run (g @ q) = g"
  using assms
proof (induction g arbitrary: acc)
  case Nil
  then show ?case by simp
next
  case (Cons x g)
  show ?case
  proof (cases "g = []")
    case True
    with Cons.prems(3) show ?thesis
      by (cases x) (auto split: option.splits)
  next
    case False
    then have bl: "butlast (x # g) = x # butlast g" by simp
    from Cons.prems(2) obtain b f where x: "x = Some b" and f: "sess_run b = Some f"
      unfolding bl by (cases x) (auto simp: worker_take_stopped split: option.splits)
    from Cons.prems(2) x f
    have 1: "snd (foldl (worker_take sess_run) (acc @ [f], Running) (butlast g)) = Running"
      unfolding bl by simp
    from Cons.prems(3) x f
    have 2: "snd (foldl (worker_take sess_run) (acc @ [f], Running) g) \<noteq> Running"
      by simp
    from Cons.IH [OF False 1 2] x f show ?thesis by simp
  qed
qed

lemma reachable_stopped_gets:
  assumes r: "reachable all_patches batch_size lnum sess_run s"
    and w: "worker_thread s \<noteq> Running"
  shows "gets s = worker_prefix sess_run (map snd (puts s))"
proof -
  from reachable_inv [OF r]
  have a: "gets s @ patch_queue s = map snd (puts s)"
    and f: "(all_feat s, worker_thread s) = foldl (worker_take sess_run) ([], Running) (gets s)"
    by (simp_all add: state_inv_def)
  from reachable_gets_inv [OF r] w
  have g: "gets s \<noteq> []"
    and b: "snd (foldl (worker_take sess_run) ([], Running) (butlast (gets s))) = Running"
    by (simp_all add: gets_inv_def)
  from f w have "snd (foldl (worker_take sess_run) ([], Running) (gets s)) \<noteq> Running"
    by (metis snd_conv)
  from worker_prefix_unique [OF g b this, of "patch_queue s"] a show ?thesis by simp
qed

lemma worker_prefix_all_ok:
  "\<forall>b \<in> set bs. sess_run b \<noteq> None \<Longrightarrow>
   worker_prefix sess_run (map Some bs @ xs) = map Some bs @ worker_prefix sess_run xs"
  by (induction bs) auto


lemma worker_prefix_failure:
  assumes k: "k < length bs" and bad: "sess_run (bs ! k) = None"
    and ok: "\<forall>j < k. sess_run (bs ! j) \<noteq> None"
  shows "worker_prefix sess_run (map Some bs @ [None]) = map Some (take (Suc k) bs)"
proof -
  have split: "bs = take k bs @ bs ! k # drop (Suc k) bs"
    using k by (rule id_take_nth_drop)
  have pre: "\<forall>b \<in> set (take k bs). sess_run b \<noteq> None"
  proof
    fix b assume "b \<in> set (take k bs)"
    then obtain j where "j < length (take k bs)" "take k bs ! j = b"
      by (auto simp: in_set_conv_nth)
    with ok k show "sess_run b \<noteq> None" by auto
  qed
  have "map Some bs @ [None] =
        map Some (take k bs) @ (Some (bs ! k) # (map Some (drop (Suc k) bs) @ [None]))"
    by (subst split) simp
  then have "worker_prefix sess_run (map Some bs @ [None]) =
             map Some (take k bs) @ [Some (bs ! k)]"
    using worker_prefix_all_ok [OF pre] bad by simp
  also have "\<dots> = map Some (take (Suc k) bs)"
    using k by (simp add: take_Suc_conv_app_nth)
  finally show ?thesis .
qed

section \<open>The result of the call\<close>

text \<open>
  The call's result does not depend on the schedule: after the join the accumulator is
  what the worker makes of the batches in the order they were put.
\<close>

lemma extract_deep_features_eq:
  assumes "loop_num (int (length all_patches)) batch_size = Inr lnum"
  shows "extract_deep_features all_patches batch_size sess_run qtz quantize =
         Some (case np_concatenate
                 (fst (foldl (worker_take sess_run) ([], Running)
                    (map Some (enqueued_batches all_patches batch_size lnum) @ [None]))) of
                 Inl e \<Rightarrow> Inl e
               | Inr feat \<Rightarrow> Inr (if qtz then map quantize feat else feat))"
proof -
  let ?s = "run_threads all_patches batch_size lnum sess_run init_state"
  have j: "pc ?s = Joined" by (rule run_threads_joined)
  have "all_feat ?s = fst (foldl (worker_take sess_run) ([], Running)
                    (map Some (enqueued_batches all_patches batch_size lnum) @ [None]))"
    using run_threads_result [of all_patches batch_size lnum sess_run] by (metis fst_conv)
  then show ?thesis using assms j
    by (simp add: extract_deep_features_def Let_def split: sum.splits)
qed

lemma enqueued_batches_nonempty:
  assumes "0 < batch_size" "loop_num (int (length all_patches)) batch_size = Inr lnum"
    "all_patches \<noteq> []"
  shows "enqueued_batches all_patches batch_size lnum \<noteq> []"
proof
  assume e: "enqueued_batches all_patches batch_size lnum = []"
  have "concat (enqueued_batches all_patches batch_size lnum) = all_patches"
    using assms(1,2) enqueued_batches_spec [OF assms(1,2)] batch_splitter_concat [of "nat batch_size" all_patches]
    by simp
  with e assms(3) show False by simp
qed

lemma enqueued_batches_concat:
  assumes "0 < batch_size" "loop_num (int (length all_patches)) batch_size = Inr lnum"
  shows "concat (enqueued_batches all_patches batch_size lnum) = all_patches"
  using enqueued_batches_spec [OF assms] batch_splitter_concat [of "nat batch_size" all_patches] assms(1)
  by simp

lemma concat_itemwise:
  assumes "\<forall>b. sess_run b = Some (map g b)"
  shows "concat (map (the \<circ> sess_run) bs) = map g (concat bs)"
  using assms by (induction bs) simp_all

lemma extract_deep_features_itemwise:
  assumes b: "0 < batch_size" and ne: "all_patches \<noteq> []"
    and g: "\<forall>b. sess_run b = Some (map g b)"
  shows "extract_deep_features all_patches batch_size sess_run qtz quantize =
         Some (Inr (if qtz then map quantize (map g all_patches) else map g all_patches))"
proof -
  obtain lnum where l: "loop_num (int (length all_patches)) batch_size = Inr lnum"
    using loop_num_pos [OF b] by blast
  let ?bs = "enqueued_batches all_patches batch_size lnum"
  have ok: "\<forall>b \<in> set ?bs. sess_run b \<noteq> None" using g by simp
  have f: "foldl (worker_take sess_run) ([], Running) (map Some ?bs @ [None]) =
           (map (the \<circ> sess_run) ?bs, Returned)"
    using ok by (rule worker_take_success)
  have n: "?bs \<noteq> []" using b l ne by (rule enqueued_batches_nonempty)
  have c: "concat (map (the \<circ> sess_run) ?bs) = map g all_patches"
    using concat_itemwise [OF g, of ?bs] enqueued_batches_concat [OF b l] by simp
  show ?thesis
    unfolding extract_deep_features_eq [OF l] f
    using n c by (simp add: np_concatenate_def)
qed

lemma reachable_joined_itemwise:
  assumes b: "0 < batch_size" and l: "loop_num (int (length all_patches)) batch_size = Inr lnum"
    and g: "\<forall>b. sess_run b = Some (map g b)"
    and r: "reachable all_patches batch_size lnum sess_run s" and j: "pc s = Joined"
  shows "concat (all_feat s) = map g all_patches"
proof -
  let ?bs = "enqueued_batches all_patches batch_size lnum"
  have ok: "\<forall>b \<in> set ?bs. sess_run b \<noteq> None" using g by simp
  have "(all_feat s, worker_thread s) = (map (the \<circ> sess_run) ?bs, Returned)"
    using reachable_joined [OF r j] worker_take_success [OF ok] by simp
  then have "all_feat s = map (the \<circ> sess_run) ?bs" by simp
  then show ?thesis
    using concat_itemwise [OF g, of ?bs] enqueued_batches_concat [OF b l] by simp
qed

text \<open>
  With at least one patch, a positive batch size and an inference call that returns one
  feature per item of the batch, in order (\<open>sess_run b = Some (map g b)\<close>), the result
  has one entry per patch, entry \<open>i\<close> being derived from patch \<open>i\<close>:
  \<open>extract_deep_features_itemwise\<close> for the call, \<open>reachable_joined_itemwise\<close> for
  every schedule of the two threads.

  Claim C1. The same is claimed for every \<open>N \<ge> 0\<close>; with no patch at all the call
  does not return the empty result: no batch is enqueued, the accumulator stays empty,
  and \<open>np.concatenate\<close> of line 100 raises \<open>ValueError\<close>, whatever the inference
  function and the \<open>qtz\<close> flag are.
\<close>

theorem extract_deep_features_no_patches:
  "extract_deep_features [] 512 sess_run qtz quantize = Some (Inl ValueError)"
proof -
  have l: "loop_num (int (length [])) 512 = Inr (- 1)"
    by (simp add: loop_num_pos)
  have e: "enqueued_batches [] 512 (- 1) = []"
    by (simp add: enqueued_batches_def)
  show ?thesis
    unfolding extract_deep_features_eq [OF l] e
    by (simp add: np_concatenate_def)
qed

text \<open>
  Claim C4. With no patch and the default batch size 512, \<open>loop_num\<close> is \<open>-1\<close>, the
  loop enqueues no batch, the poison pill of line 93 is put and taken, the worker
  returns and the join completes; then line 100 concatenates the empty accumulator and
  raises \<open>ValueError\<close> instead of returning an empty result.
\<close>

theorem empty_input_run:
  "loop_num 0 512 = Inr (- 1)
   \<and> enqueued_batches ([] :: 'a list) 512 (- 1) = []
   \<and> run_threads ([] :: 'a list) 512 (- 1) sess_run init_state =
       \<lparr>patch_queue = [], all_feat = [], worker_thread = Returned, pc = Joined,
        puts = [(Line93, None)], gets = [None]\<rparr>
   \<and> np_concatenate (all_feat (run_threads ([] :: 'a list) 512 (- 1) sess_run init_state)) =
       Inl ValueError
   \<and> extract_deep_features ([] :: 'a list) 512 sess_run False quantize = Some (Inl ValueError)"
proof -
  have l: "loop_num 0 512 = Inr (- 1)"
    by (simp add: loop_num_pos)
  have l': "loop_num (int (length ([] :: 'a list))) 512 = Inr (- 1)"
    using l by simp
  have e: "enqueued_batches ([] :: 'a list) 512 (- 1) = []"
    by (simp add: enqueued_batches_def)
  have r: "run_threads ([] :: 'a list) 512 (- 1) sess_run init_state =
       \<lparr>patch_queue = [], all_feat = [], worker_thread = Returned, pc = Joined,
        puts = [(Line93, None)], gets = [None]\<rparr>"
    by (simp add: run_threads.simps worker_step_def main_step_def queue_get_def
          queue_put_default init_state_def)
  have x: "extract_deep_features ([] :: 'a list) 512 sess_run False quantize = Some (Inl ValueError)"
    unfolding extract_deep_features_eq [OF l'] e
    by (simp add: np_concatenate_def)
  from l e r x show ?thesis by (simp add: np_concatenate_def)
qed

section \<open>A failing inference call\<close>

text \<open>
  Claim C3, as stated, fails. With ten patches and batch size 4 the second batch is
  \<open>[5, 6, 7, 8]\<close>; when the inference call raises on it, the call still returns a
  result: the features of the first batch alone.
\<close>

theorem inference_failure_counterexample:
  "enqueued_batches [1, 2, 3, 4, 5, 6, 7, 8, 9, 10 :: nat] 4 2 ! 1 = [5, 6, 7, 8]
   \<and> model_failing_on [5, 6, 7, 8 :: nat] [5, 6, 7, 8] = None
   \<and> extract_deep_features [1, 2, 3, 4, 5, 6, 7, 8, 9, 10 :: nat] 4
         (model_failing_on [5, 6, 7, 8]) False id = Some (Inr [1, 2, 3, 4])"
  by code_simp

text \<open>
  Claim C3, amended. When the inference call raises on batch \<open>k\<close> and on none before
  it, then after the join, whatever the schedule was, the worker thread has ended on the
  exception, it has taken exactly the batches \<open>0\<close> to \<open>k\<close>, each once and in order (no
  retry, no skip, nothing after the failing batch), and the accumulator holds the
  features of the batches \<open>0\<close> to \<open>k - 1\<close>. The join does not surface the failure: the
  call returns the concatenation of these features, a truncated result, when \<open>k > 0\<close>;
  when \<open>k = 0\<close> nothing was accumulated and the concatenation raises \<open>ValueError\<close>.
\<close>

theorem inference_failure_truncates:
  assumes l: "loop_num (int (length all_patches)) batch_size = Inr lnum"
    and k: "k < length (enqueued_batches all_patches batch_size lnum)"
    and bad: "sess_run (enqueued_batches all_patches batch_size lnum ! k) = None"
    and ok: "\<forall>j < k. sess_run (enqueued_batches all_patches batch_size lnum ! j) \<noteq> None"
  shows "(\<forall>s. reachable all_patches batch_size lnum sess_run s \<and> pc s = Joined \<longrightarrow>
            worker_thread s = Crashed
            \<and> gets s = map Some (take (Suc k) (enqueued_batches all_patches batch_size lnum))
            \<and> all_feat s =
                map (the \<circ> sess_run) (take k (enqueued_batches all_patches batch_size lnum)))
         \<and> extract_deep_features all_patches batch_size sess_run qtz quantize =
             Some (if k = 0 then Inl ValueError
                   else Inr (if qtz
                     then map quantize (concat (map (the \<circ> sess_run)
                            (take k (enqueued_batches all_patches batch_size lnum))))
                     else concat (map (the \<circ> sess_run)
                            (take k (enqueued_batches all_patches batch_size lnum)))))"
proof -
  let ?bs = "enqueued_batches all_patches batch_size lnum"
  have f: "foldl (worker_take sess_run) ([], Running) (map Some ?bs @ [None]) =
           (map (the \<circ> sess_run) (take k ?bs), Crashed)"
    using k bad ok by (rule worker_take_failure)
  have 1: "\<forall>s. reachable all_patches batch_size lnum sess_run s \<and> pc s = Joined \<longrightarrow>
            worker_thread s = Crashed \<and> gets s = map Some (take (Suc k) ?bs)
            \<and> all_feat s = map (the \<circ> sess_run) (take k ?bs)"
  proof (intro allI impI)
    fix s assume a: "reachable all_patches batch_size lnum sess_run s \<and> pc s = Joined"
    then have r: "reachable all_patches batch_size lnum sess_run s" and j: "pc s = Joined"
      by simp_all
    from reachable_joined [OF r j] f
    have w: "worker_thread s = Crashed" and af: "all_feat s = map (the \<circ> sess_run) (take k ?bs)"
      by simp_all
    from reachable_inv [OF r] j have p: "puts s = put_sequence all_patches batch_size lnum"
      by (simp add: state_inv_def)
    have "gets s = worker_prefix sess_run (map snd (puts s))"
      using r w by (intro reachable_stopped_gets) simp_all
    also have "\<dots> = map Some (take (Suc k) ?bs)"
      unfolding p put_sequence_values using k bad ok by (rule worker_prefix_failure)
    finally show "worker_thread s = Crashed \<and> gets s = map Some (take (Suc k) ?bs)
            \<and> all_feat s = map (the \<circ> sess_run) (take k ?bs)"
      using w af by simp
  qed
  have e: "(take k ?bs = []) = (k = 0)" using k by auto
  have 2: "extract_deep_features all_patches batch_size sess_run qtz quantize =
             Some (if k = 0 then Inl ValueError
                   else Inr (if qtz
                     then map quantize (concat (map (the \<circ> sess_run) (take k ?bs)))
                     else concat (map (the \<circ> sess_run) (take k ?bs))))"
    unfolding extract_deep_features_eq [OF l] f
    using e by (simp add: np_concatenate_def)
  from 1 2 show ?thesis by blast
qed

theorem inference_failure_truncates_witness:
  "extract_deep_features [1, 2, 3, 4, 5, 6, 7, 8, 9, 10 :: int] 4
       (model_failing_on [5, 6, 7, 8]) True uminus = Some (Inr [- 1, - 2, - 3, - 4])"
proof -
  have l: "loop_num (int (length [1, 2, 3, 4, 5, 6, 7, 8, 9, 10 :: int])) 4 = Inr 2"
    by code_simp
  have bs: "enqueued_batches [1, 2, 3, 4, 5, 6, 7, 8, 9, 10 :: int] 4 2 =
            [[1, 2, 3, 4], [5, 6, 7, 8], [9, 10]]"
    by code_simp
  have k: "1 < length (enqueued_batches [1, 2, 3, 4, 5, 6, 7, 8, 9, 10 :: int] 4 2)"
    unfolding bs by simp
  have v0: "model_failing_on [5, 6, 7, 8 :: int] [1, 2, 3, 4] = Some [1, 2, 3, 4]"
    by (simp add: model_failing_on_def)
  have v1: "model_failing_on [5, 6, 7, 8 :: int] [5, 6, 7, 8] = None"
    by (simp add: model_failing_on_def)
  have bad: "model_failing_on [5, 6, 7, 8 :: int]
               (enqueued_batches [1, 2, 3, 4, 5, 6, 7, 8, 9, 10 :: int] 4 2 ! 1) = None"
    unfolding bs using v1 by simp
  have ok: "\<forall>j < 1. model_failing_on [5, 6, 7, 8 :: int]
               (enqueued_batches [1, 2, 3, 4, 5, 6, 7, 8, 9, 10 :: int] 4 2 ! j) \<noteq> None"
    unfolding bs using v0 by simp
  from inference_failure_truncates [OF l k bad ok, of True uminus] show ?thesis
    unfolding bs using v0 by simp
qed

section \<open>A batch size that is not positive\<close>

text \<open>
  Claim C5, as stated, fails for a negative batch size. With ten patches and batch size
  \<open>-4\<close>, \<open>loop_num\<close> is \<open>-3\<close> and no exception is raised before the queue is used:
  the poison pill is put, the worker takes it and returns, and the call fails only at
  line 100, with \<open>ValueError\<close>.
\<close>

theorem negative_batch_size_counterexample:
  "loop_num 10 (- 4) = Inr (- 3)
   \<and> puts (run_threads [1, 2, 3, 4, 5, 6, 7, 8, 9, 10 :: nat] (- 4) (- 3) identity_model init_state) =
       [(Line93, None)]
   \<and> worker_thread
       (run_threads [1, 2, 3, 4, 5, 6, 7, 8, 9, 10 :: nat] (- 4) (- 3) identity_model init_state) =
       Returned
   \<and> extract_deep_features [1, 2, 3, 4, 5, 6, 7, 8, 9, 10 :: nat] (- 4) identity_model False id =
       Some (Inl ValueError)"
  by code_simp


lemma negative_loop_num_run:
  assumes l: "lnum < 0"
  shows "enqueued_batches all_patches batch_size lnum = []
         \<and> (\<forall>s. reachable all_patches batch_size lnum sess_run s \<and> pc s = Joined \<longrightarrow>
               puts s = [(Line93, None)] \<and> gets s = [None] \<and> worker_thread s = Returned
               \<and> all_feat s = [])"
proof -
  have e: "enqueued_batches all_patches batch_size lnum = []"
    using l by (simp add: enqueued_batches_def)
  have ps: "put_sequence all_patches batch_size lnum = [(Line93, None)]"
    using l by (simp add: put_sequence_def)
  have "\<forall>s. reachable all_patches batch_size lnum sess_run s \<and> pc s = Joined \<longrightarrow>
               puts s = [(Line93, None)] \<and> gets s = [None] \<and> worker_thread s = Returned
               \<and> all_feat s = []"
  proof (intro allI impI)
    fix s assume "reachable all_patches batch_size lnum sess_run s \<and> pc s = Joined"
    then have r: "reachable all_patches batch_size lnum sess_run s" and j: "pc s = Joined"
      by simp_all
    from reachable_joined [OF r j] e
    have w: "worker_thread s = Returned" and af: "all_feat s = []" by simp_all
    from reachable_inv [OF r] j ps have p: "puts s = [(Line93, None)]"
      by (simp add: state_inv_def)
    have "gets s = worker_prefix sess_run (map snd (puts s))"
      using r w by (intro reachable_stopped_gets) simp_all
    then have "gets s = [None]" unfolding p by simp
    with w af p show "puts s = [(Line93, None)] \<and> gets s = [None] \<and>
        worker_thread s = Returned \<and> all_feat s = []" by simp
  qed
  with e show ?thesis by blast
qed

text \<open>
  Claim C5, amended. With batch size 0 the call fails at once: the modulo of line 63
  raises \<open>ZeroDivisionError\<close>, before the queue is created and the worker started (no
  state of the two threads exists). A negative batch size is not rejected: \<open>loop_num\<close>
  is negative, the queue is created and the worker started, no batch is enqueued, the
  poison pill is put and taken, the worker returns, and the call raises \<open>ValueError\<close>
  at the concatenation of the empty accumulator.
\<close>

theorem invalid_batch_size:
  "(batch_size = 0 \<longrightarrow>
      loop_num (int (length all_patches)) batch_size = Inl ZeroDivisionError
      \<and> extract_deep_features all_patches batch_size sess_run qtz quantize =
          Some (Inl ZeroDivisionError))
   \<and> (batch_size < 0 \<longrightarrow>
        (\<exists>lnum < 0. loop_num (int (length all_patches)) batch_size = Inr lnum
           \<and> enqueued_batches all_patches batch_size lnum = []
           \<and> (\<forall>s. reachable all_patches batch_size lnum sess_run s \<and> pc s = Joined \<longrightarrow>
                 puts s = [(Line93, None)] \<and> gets s = [None] \<and> worker_thread s = Returned
                 \<and> all_feat s = []))
        \<and> extract_deep_features all_patches batch_size sess_run qtz quantize =
            Some (Inl ValueError))"
proof (intro conjI impI)
  assume "batch_size = 0"
  then show "loop_num (int (length all_patches)) batch_size = Inl ZeroDivisionError"
    by (simp add: loop_num_zero)
next
  assume "batch_size = 0"
  then show "extract_deep_features all_patches batch_size sess_run qtz quantize =
          Some (Inl ZeroDivisionError)"
    by (simp add: extract_deep_features_def loop_num_zero)
next
  assume b: "batch_size < 0"
  from loop_num_neg [OF b, of "int (length all_patches)"]
  obtain lnum where l: "loop_num (int (length all_patches)) batch_size = Inr lnum"
    and n: "lnum < 0" by auto
  from negative_loop_num_run [OF n, of all_patches batch_size sess_run] l n
  show "\<exists>lnum < 0. loop_num (int (length all_patches)) batch_size = Inr lnum
           \<and> enqueued_batches all_patches batch_size lnum = []
           \<and> (\<forall>s. reachable all_patches batch_size lnum sess_run s \<and> pc s = Joined \<longrightarrow>
                 puts s = [(Line93, None)] \<and> gets s = [None] \<and> worker_thread s = Returned
                 \<and> all_feat s = [])"
    by blast
next
  assume b: "batch_size < 0"
  from loop_num_neg [OF b, of "int (length all_patches)"]
  obtain lnum where l: "loop_num (int (length all_patches)) batch_size = Inr lnum"
    and n: "lnum < 0" by auto
  have e: "enqueued_batches all_patches batch_size lnum = []"
    using n by (simp add: enqueued_batches_def)
  show "extract_deep_features all_patches batch_size sess_run qtz quantize =
            Some (Inl ValueError)"
    unfolding extract_deep_features_eq [OF l] e by (simp add: np_concatenate_def)
qed

theorem invalid_batch_size_witness:
  "extract_deep_features [1, 2, 3 :: int] 0 identity_model False id = Some (Inl ZeroDivisionError)
   \<and> extract_deep_features [1, 2, 3 :: int] (- 4) identity_model False id = Some (Inl ValueError)"
  using invalid_batch_size [of 0 "[1, 2, 3 :: int]" identity_model False id]
    invalid_batch_size [of "- 4" "[1, 2, 3 :: int]" identity_model False id]
  by simp

section \<open>The producer\<close>

text \<open>
  Claim C9. The queue of line 79 has no capacity bound, so a put never blocks; and in
  every state in which the calling thread is still in the loop or at the poison pill,
  whatever the queue holds and whatever the worker has or has not processed, its next
  put is enabled, and it changes neither the accumulator nor the worker. The producer
  waits for the worker only at the join.
\<close>

theorem producer_never_blocks:
  "(\<forall>q x. queue_put default_maxsize q x = Some (q @ [x]))
   \<and> (pc s = Enqueue i \<longrightarrow>
        (\<exists>s' x. main_step all_patches batch_size lnum s = Some s'
           \<and> patch_queue s' = patch_queue s @ [x]
           \<and> all_feat s' = all_feat s \<and> worker_thread s' = worker_thread s
           \<and> gets s' = gets s))"
proof -
  have 1: "\<forall>q x. queue_put default_maxsize q x = Some (q @ [x])"
    by (simp add: queue_put_default)
  have 2: "\<exists>s' x. main_step all_patches batch_size lnum s = Some s'
           \<and> patch_queue s' = patch_queue s @ [x]
           \<and> all_feat s' = all_feat s \<and> worker_thread s' = worker_thread s
           \<and> gets s' = gets s" if e: "pc s = Enqueue i"
  proof (cases "i < lnum + 1")
    case True
    from main_step_enqueue [OF e True, of all_patches batch_size] show ?thesis by simp
  next
    case False
    from main_step_poison [OF e False, of all_patches batch_size] show ?thesis by simp
  qed
  from 1 2 show ?thesis by blast
qed

theorem producer_never_blocks_witness:
  "main_step [1, 2, 3, 4, 5 :: int] 2 2 (init_state :: (int, int) state) =
     Some \<lparr>patch_queue = [Some [1, 2]], all_feat = [], worker_thread = Running,
           pc = Enqueue 1, puts = [(Line89, Some [1, 2])], gets = []\<rparr>
   \<and> (\<exists>s' x. main_step [1, 2, 3, 4, 5 :: int] 2 2 (init_state :: (int, int) state) = Some s'
         \<and> patch_queue s' = patch_queue (init_state :: (int, int) state) @ [x])"
proof -
  have p: "pc (init_state :: (int, int) state) = Enqueue 0"
    by (simp add: init_state_def)
  have v: "main_step [1, 2, 3, 4, 5 :: int] 2 2 (init_state :: (int, int) state) =
     Some \<lparr>patch_queue = [Some [1, 2]], all_feat = [], worker_thread = Running,
           pc = Enqueue 1, puts = [(Line89, Some [1, 2])], gets = []\<rparr>"
    by code_simp
  from producer_never_blocks [of "init_state :: (int, int) state" 0 "[1, 2, 3, 4, 5 :: int]" 2 2] p
  have "\<exists>s' x. main_step [1, 2, 3, 4, 5 :: int] 2 2 (init_state :: (int, int) state) = Some s'
         \<and> patch_queue s' = patch_queue (init_state :: (int, int) state) @ [x]"
    by blast
  with v show ?thesis by blast
qed

section \<open>Termination\<close>





section \<open>The poison pill\<close>








lemma put_sequence_sites:
  assumes "(t, x) \<in> set (put_sequence all_patches batch_size lnum)"
  shows "(x = None) = (t = Line93)
         \<and> (t \<noteq> Line93 \<longrightarrow>
              (\<exists>i. 0 \<le> i \<and> i \<le> lnum \<and>
                   (x = Some (slice all_patches (i * batch_size) ((i + 1) * batch_size))
                    \<or> x = Some (slice_from all_patches (i * batch_size)))))"
  using assms
  by (auto simp: put_sequence_def loop_site_def loop_batch_def split: if_splits)

lemma reachable_puts_subset:
  assumes r: "reachable all_patches batch_size lnum sess_run s"
  shows "set (puts s) \<subseteq> set (put_sequence all_patches batch_size lnum)"
proof (cases "pc s")
  case (Enqueue i)
  with reachable_inv [OF r]
  have i: "i \<le> max 0 (lnum + 1)"
    and p: "puts s = map (\<lambda>i. (loop_site lnum i, Some (loop_batch all_patches batch_size lnum i)))
                     [0..i - 1]"
    by (simp_all add: state_inv_def)
  have "set [0..i - 1] \<subseteq> set [0..lnum]" using i by auto
  then show ?thesis unfolding p put_sequence_def by auto
next
  case Joining
  with reachable_inv [OF r] show ?thesis by (simp add: state_inv_def)
next
  case Joined
  with reachable_inv [OF r] show ?thesis by (simp add: state_inv_def)
qed

text \<open>
  Claim C10. In every reachable state, an element that was put is \<open>None\<close> exactly when
  line 93 put it; every element put by the loop (lines 89 and 91) is a slice
  \<open>all_patches[i * batch_size : (i + 1) * batch_size]\<close> or \<open>all_patches[i * batch_size :]\<close>
  of the input, possibly empty, never \<open>None\<close>; the worker takes the elements that were
  put, in order; and a step of the worker makes it return exactly when the element it
  takes is the one line 93 put.
\<close>

theorem sentinel_unambiguous:
  assumes r: "reachable all_patches batch_size lnum sess_run s"
  shows "(\<forall>(t, x) \<in> set (puts s). (x = None) = (t = Line93))
         \<and> (\<forall>(t, x) \<in> set (puts s). t \<noteq> Line93 \<longrightarrow>
              (\<exists>i. 0 \<le> i \<and> i \<le> lnum \<and>
                   (x = Some (slice all_patches (i * batch_size) ((i + 1) * batch_size))
                    \<or> x = Some (slice_from all_patches (i * batch_size)))))
         \<and> gets s @ patch_queue s = map snd (puts s)
         \<and> (\<forall>s'. worker_step sess_run s = Some s' \<longrightarrow>
              (worker_thread s' = Returned) = (fst (puts s ! length (gets s)) = Line93))"
proof -
  note sub = reachable_puts_subset [OF r]
  have 1: "\<forall>(t, x) \<in> set (puts s). (x = None) = (t = Line93)"
    using sub put_sequence_sites [of _ _ all_patches batch_size lnum] by blast
  have 2: "\<forall>(t, x) \<in> set (puts s). t \<noteq> Line93 \<longrightarrow>
              (\<exists>i. 0 \<le> i \<and> i \<le> lnum \<and>
                   (x = Some (slice all_patches (i * batch_size) ((i + 1) * batch_size))
                    \<or> x = Some (slice_from all_patches (i * batch_size))))"
    using sub put_sequence_sites [of _ _ all_patches batch_size lnum] by blast
  have 3: "gets s @ patch_queue s = map snd (puts s)"
    using reachable_inv [OF r] by (simp add: state_inv_def)
  have 4: "(worker_thread s' = Returned) = (fst (puts s ! length (gets s)) = Line93)"
    if st: "worker_step sess_run s = Some s'" for s'
  proof -
    from worker_step_SomeD [OF st] obtain x where
      run: "worker_thread s = Running" and q: "patch_queue s = x # patch_queue s'" and
      w: "(all_feat s', worker_thread s') = worker_take sess_run (all_feat s, worker_thread s) x"
      by blast
    have len: "length (gets s) < length (puts s)"
      using arg_cong [OF 3, of length] q by simp
    have "map snd (puts s) ! length (gets s) = x"
      using 3 [symmetric] q by (simp add: nth_append)
    with len have x: "snd (puts s ! length (gets s)) = x" by simp
    have "puts s ! length (gets s) \<in> set (puts s)" using len by simp
    with 1 have "(snd (puts s ! length (gets s)) = None) =
                 (fst (puts s ! length (gets s)) = Line93)"
      by (cases "puts s ! length (gets s)") auto
    moreover have "(worker_thread s' = Returned) = (x = None)"
      using w run by (cases x) (auto split: option.splits)
    ultimately show ?thesis using x by simp
  qed
  from 1 2 3 4 show ?thesis by blast
qed

theorem sentinel_unambiguous_witness:
  "reachable [1, 2, 3 :: int] 2 1 identity_model
     (run_threads [1, 2, 3 :: int] 2 1 identity_model init_state)
   \<and> puts (run_threads [1, 2, 3 :: int] 2 1 identity_model init_state) =
       [(Line89, Some [1, 2]), (Line91, Some [3]), (Line93, None)]
   \<and> gets (run_threads [1, 2, 3 :: int] 2 1 identity_model init_state)
       @ patch_queue (run_threads [1, 2, 3 :: int] 2 1 identity_model init_state) =
       [Some [1, 2], Some [3], None]"
proof -
  let ?s = "run_threads [1, 2, 3 :: int] 2 1 identity_model init_state"
  have r: "reachable [1, 2, 3 :: int] 2 1 identity_model ?s"
    by (rule run_threads_reachable) (rule reachable_init)
  have v: "puts ?s = [(Line89, Some [1, 2]), (Line91, Some [3]), (Line93, None)]"
    by code_simp
  from sentinel_unambiguous [OF r]
  have "gets ?s @ patch_queue ?s = map snd (puts ?s)" by blast
  with r v show ?thesis by simp
qed

end
